theory Spec2Isabelle
  imports Complex_Main
begin

section \<open>Errors raised by the data utilities\<close>

datatype error =
    AssertionError
  | IndexError
  | ValueError
  | AttributeError
  | ZeroDivisionError
  | UnboundLocalError

section \<open>Cluster assignment\<close>

text \<open>
  \<^verbatim>\<open>assign_cluster_ids\<close> of \<^verbatim>\<open>NCF_NeighborWise_Dataset\<close> and of
  \<^verbatim>\<open>CDAE_Neighbor_Data\<close> share one body. The cosine similarity matrix comes from
  scikit-learn and is a parameter here: a square matrix over the entities, read as a
  function of two indices on \<open>[0, unique_samples)\<close>. Only the order of its scores is
  used, so the scores are rationals. \<^verbatim>\<open>np.argsort(-row)\<close> is the sort of the
  indices by negated score; among equal scores the smaller index comes first, the order
  that the specification of the similarity provider fixes (numpy's default sort promises
  none).
\<close>

type_synonym similarity = "nat \<Rightarrow> nat \<Rightarrow> rat"

definition similar_samples :: "similarity \<Rightarrow> nat \<Rightarrow> nat \<Rightarrow> nat list" where
  "similar_samples sim n sample = sort_key (\<lambda>j. - sim sample j) [0..<n]"

text \<open>
  The inner loop over \<^verbatim>\<open>similar_samples[1:]\<close>: an unassigned neighbour joins the
  cluster, and the loop stops once the cluster holds \<^verbatim>\<open>self.group_size\<close> members.
\<close>

fun fill_group :: "nat \<Rightarrow> int \<Rightarrow> int list \<Rightarrow> nat \<Rightarrow> nat list \<Rightarrow> int list" where
  "fill_group self_group_size cluster_id cps group_size [] = cps"
| "fill_group self_group_size cluster_id cps group_size (similar_sample # rest) =
     (if cps ! similar_sample = - 1 then
        (if self_group_size \<le> group_size + 1 then cps[similar_sample := cluster_id]
         else fill_group self_group_size cluster_id (cps[similar_sample := cluster_id])
                (group_size + 1) rest)
      else fill_group self_group_size cluster_id cps group_size rest)"

text \<open>
  The outer loop over \<^verbatim>\<open>range(unique_samples)\<close>, with its \<^verbatim>\<open>break\<close> and
  \<^verbatim>\<open>continue\<close>. The state is the array \<^verbatim>\<open>clusters_per_sample\<close> and the counter
  \<^verbatim>\<open>cluster_id\<close>.
\<close>

fun cluster_loop ::
  "similarity \<Rightarrow> nat \<Rightarrow> nat \<Rightarrow> nat list \<Rightarrow> int list \<times> nat \<Rightarrow> int list \<times> nat" where
  "cluster_loop sim n gs [] (cps, cluster_id) = (cps, cluster_id)"
| "cluster_loop sim n gs (sample # rest) (cps, cluster_id) =
     (if cluster_id = n div gs then (cps, cluster_id)
      else if cps ! sample \<noteq> - 1 then cluster_loop sim n gs rest (cps, cluster_id)
      else
        let cps1 = cps[sample := int cluster_id];
            cps2 = (if 1 < gs
                    then fill_group gs (int cluster_id) cps1 1 (tl (similar_samples sim n sample))
                    else cps1)
        in cluster_loop sim n gs rest (cps2, cluster_id + 1))"

text \<open>The pass under \<^verbatim>\<open>## Edge case\<close>.\<close>

definition repair_pass :: "nat \<Rightarrow> nat \<Rightarrow> int list \<Rightarrow> int list" where
  "repair_pass cluster_id cluster_num cps =
     (if cluster_id < cluster_num
      then map (\<lambda>c. if c = - 1 then int cluster_id else c) cps
      else cps)"

definition cluster_count :: "nat \<Rightarrow> nat \<Rightarrow> nat" where
  "cluster_count unique_samples gs =
     unique_samples div gs + (if unique_samples mod gs \<noteq> 0 then 1 else 0)"

definition assign_clusters :: "similarity \<Rightarrow> nat \<Rightarrow> nat \<Rightarrow> int list \<times> nat" where
  "assign_clusters sim unique_samples gs =
     (let cluster_num = cluster_count unique_samples gs;
          (cps, cluster_id) =
             cluster_loop sim unique_samples gs [0..<unique_samples]
               (replicate unique_samples (- 1), 0)
      in (repair_pass cluster_id cluster_num cps, cluster_num))"

text \<open>
  The entities that still hold the sentinel \<open>-1\<close>, and the cluster opened for one
  unassigned sample (the body of the outer loop after its two guards).
\<close>

definition unassigned :: "int list \<Rightarrow> nat set" where
  "unassigned cps = {i. i < length cps \<and> cps ! i = - 1}"

definition new_cluster ::
  "similarity \<Rightarrow> nat \<Rightarrow> nat \<Rightarrow> nat \<Rightarrow> int list \<Rightarrow> nat \<Rightarrow> int list" where
  "new_cluster sim n gs s cps c =
     (if 1 < gs
      then fill_group gs (int c) (cps[s := int c]) 1 (tl (similar_samples sim n s))
      else cps[s := int c])"

text \<open>\<^verbatim>\<open>np.unique(a).shape[0]\<close>: the number of distinct values of an array.\<close>

definition unique_count :: "int list \<Rightarrow> nat" where
  "unique_count a = length (remdups a)"

text \<open>
  \<^verbatim>\<open>a[keys]\<close> with an integer index array: every key must be inside the array.
  Entity indices are natural numbers here, so the negative indices of numpy do not occur.
\<close>

definition take_ids :: "int list \<Rightarrow> nat list \<Rightarrow> error + int list" where
  "take_ids a keys =
     (if list_all (\<lambda>k. k < length a) keys then Inr (map (\<lambda>k. a ! k) keys)
      else Inl IndexError)"

section \<open>NCF\_Dataset\<close>

text \<open>
  \<^verbatim>\<open>features\<close> is the array of (user, item) pairs, \<^verbatim>\<open>train_mat\<close> the dictionary of
  keys of the interaction matrix, kept as the list of its stored pairs. The four
  \<^verbatim>\<open>*_fill\<close> attributes do not exist before \<^verbatim>\<open>ng_sample\<close> has run. With
  \<^verbatim>\<open>num_ng == 0\<close> the attribute \<^verbatim>\<open>train_labels_fill\<close> is the very array
  \<^verbatim>\<open>train_labels\<close>, which \<^verbatim>\<open>flip_labels\<close> later changes in place; otherwise it is
  a fresh array.
\<close>

datatype filled = Unset | Shared | Copied "int list"

record ncf_dataset =
  features :: "(nat \<times> nat) list"
  true_labels :: "int list"
  train_mat :: "(nat \<times> nat) list"
  is_training :: int
  num_ng :: nat
  labels :: "int list"
  train_labels :: "int list"
  user_num :: nat
  item_num :: nat
  negative_samples :: "(nat \<times> nat) list"
  features_fill :: "(nat \<times> nat) list option"
  labels_fill :: "int list option"
  true_labels_fill :: "int list option"
  train_labels_fill :: filled

definition ncf_init ::
  "nat \<Rightarrow> nat \<Rightarrow> (nat \<times> nat) list \<Rightarrow> (nat \<times> nat) list \<Rightarrow> int list \<Rightarrow> int \<Rightarrow> nat
     \<Rightarrow> ncf_dataset" where
  "ncf_init un itn fs tm tls mode ng =
     \<lparr> features = fs, true_labels = tls, train_mat = tm, is_training = mode, num_ng = ng,
       labels = replicate (length fs) 1, train_labels = replicate (length fs) 1,
       user_num = un, item_num = itn, negative_samples = [],
       features_fill = None, labels_fill = None, true_labels_fill = None,
       train_labels_fill = Unset \<rparr>"

definition read_train_labels_fill :: "'a ncf_dataset_scheme \<Rightarrow> int list option" where
  "read_train_labels_fill d =
     (case train_labels_fill d of
        Unset \<Rightarrow> None
      | Shared \<Rightarrow> Some (train_labels d)
      | Copied a \<Rightarrow> Some a)"

subsection \<open>Negative sampling\<close>

text \<open>
  The values that successive calls of \<^verbatim>\<open>np.random.randint(self.item_num)\<close> return
  are a parameter, the list \<open>rs\<close>. The rejection loop has no bound in the source; a list
  that runs out before every pair has its negative stands for a loop that has not
  returned, and the result is then \<open>None\<close>.
\<close>

fun draw_negative :: "(nat \<times> nat) list \<Rightarrow> nat \<Rightarrow> nat list \<Rightarrow> (nat \<times> nat list) option" where
  "draw_negative tm u [] = None"
| "draw_negative tm u (j # rs) =
     (if (u, j) \<in> set tm then draw_negative tm u rs else Some (j, rs))"

fun sample_pass ::
  "(nat \<times> nat) list \<Rightarrow> (nat \<times> nat) list \<Rightarrow> nat list \<Rightarrow> ((nat \<times> nat) list \<times> nat list) option" where
  "sample_pass tm [] rs = Some ([], rs)"
| "sample_pass tm ((u, i) # fs) rs =
     (case draw_negative tm u rs of
        None \<Rightarrow> None
      | Some (j, rs1) \<Rightarrow>
          (case sample_pass tm fs rs1 of
             None \<Rightarrow> None
           | Some (ns, rs2) \<Rightarrow> Some ((u, j) # ns, rs2)))"

fun sample_passes ::
  "(nat \<times> nat) list \<Rightarrow> (nat \<times> nat) list \<Rightarrow> nat \<Rightarrow> nat list
     \<Rightarrow> ((nat \<times> nat) list \<times> nat list) option" where
  "sample_passes tm fs 0 rs = Some ([], rs)"
| "sample_passes tm fs (Suc k) rs =
     (case sample_pass tm fs rs of
        None \<Rightarrow> None
      | Some (ns, rs1) \<Rightarrow>
          (case sample_passes tm fs k rs1 of
             None \<Rightarrow> None
           | Some (ms, rs2) \<Rightarrow> Some (ns @ ms, rs2)))"

text \<open>
  \<^verbatim>\<open>ng_sample\<close>. With no positive pair the list of negatives is empty and
  \<^verbatim>\<open>np.concatenate\<close> refuses to join a two-dimensional array with a one-dimensional
  one; \<^verbatim>\<open>randint(0)\<close> is refused as well. Both are a \<^verbatim>\<open>ValueError\<close>.
\<close>

definition ng_sample ::
  "nat list \<Rightarrow> 'a ncf_dataset_scheme \<Rightarrow> (error + 'a ncf_dataset_scheme) option" where
  "ng_sample rs d =
     (if is_training d = 2 then Some (Inl AssertionError)
      else if num_ng d = 0 then
        Some (Inr (d\<lparr> features_fill := Some (features d),
                      labels_fill := Some (labels d),
                      true_labels_fill := Some (true_labels d),
                      train_labels_fill := Shared \<rparr>))
      else if features d = [] \<or> item_num d = 0 then Some (Inl ValueError)
      else
        (case sample_passes (train_mat d) (features d) (num_ng d) rs of
           None \<Rightarrow> None
         | Some (negs, rest) \<Rightarrow>
             let ff = features d @ negs;
                 lf = labels d @ replicate (length negs) 0;
                 tlf = true_labels d @ replicate (length negs) 0;
                 trf = train_labels d @ replicate (length negs) 0
             in if length ff \<noteq> length lf \<or> length ff \<noteq> length tlf \<or> length ff \<noteq> length trf
                then Some (Inl AssertionError)
                else Some (Inr (d\<lparr> negative_samples := negs,
                                   features_fill := Some ff,
                                   labels_fill := Some lf,
                                   true_labels_fill := Some tlf,
                                   train_labels_fill := Copied trf \<rparr>))))"

subsection \<open>Label state\<close>

text \<open>
  \<^verbatim>\<open>get_state\<close> prints six counts. The element-wise \<^verbatim>\<open>&\<close> of two masks follows
  numpy's broadcasting: equal lengths, or one of the two of length one.
\<close>

record state_counts =
  pos_train :: nat
  neg_train :: nat
  true_pos :: nat
  true_neg :: nat
  false_pos :: nat
  false_neg :: nat

definition np_and :: "bool list \<Rightarrow> bool list \<Rightarrow> bool list" where
  "np_and a b =
     (if length a = length b then map (\<lambda>(x, y). x \<and> y) (zip a b)
      else if length a = 1 then map (\<lambda>y. hd a \<and> y) b
      else map (\<lambda>x. x \<and> hd b) a)"

definition np_sum :: "bool list \<Rightarrow> nat" where
  "np_sum m = length (filter (\<lambda>b. b) m)"

definition get_state :: "'a ncf_dataset_scheme \<Rightarrow> error + state_counts" where
  "get_state d =
     (let train_pos_mask = map (\<lambda>x. x = 1) (train_labels d);
          train_neg_mask = map (\<lambda>x. x = 0) (train_labels d);
          true_pos_mask = map (\<lambda>x. x = 1) (true_labels d);
          true_neg_mask = map (\<lambda>x. x = 0) (true_labels d)
      in if length (train_labels d) = length (true_labels d)
            \<or> length (train_labels d) = 1 \<or> length (true_labels d) = 1
         then Inr \<lparr> pos_train = np_sum train_pos_mask,
                    neg_train = np_sum train_neg_mask,
                    true_pos = np_sum (np_and train_pos_mask true_pos_mask),
                    true_neg = np_sum (np_and train_neg_mask true_neg_mask),
                    false_pos = np_sum (np_and train_pos_mask true_neg_mask),
                    false_neg = np_sum (np_and train_neg_mask true_pos_mask) \<rparr>
         else Inl ValueError)"

text \<open>
  \<^verbatim>\<open>flip_labels\<close>. The indices are the entries of the \<^verbatim>\<open>int32\<close> array built from the
  argument. An index below the length is kept; a kept negative index counts from the end
  of the array, and one below minus the length is an \<^verbatim>\<open>IndexError\<close>, raised by the
  read on the line after the filter, before anything is written. The assignment writes
  \<open>1 - old value\<close> at every kept position. The result is the store after the call together
  with what the call printed, or the exception it raised.
\<close>

definition toggle_at :: "nat list \<Rightarrow> int list \<Rightarrow> int list" where
  "toggle_at pos old = fold (\<lambda>p a. a[p := 1 - old ! p]) pos old"

definition flip_labels ::
  "int list \<Rightarrow> 'a ncf_dataset_scheme
     \<Rightarrow> 'a ncf_dataset_scheme \<times> (error + nat \<times> nat \<times> state_counts)" where
  "flip_labels indices d =
     (if is_training d = 2 then (d, Inl AssertionError)
      else
        let n = int (length (train_labels d));
            valid_indices = filter (\<lambda>i. i < n) indices
        in if list_ex (\<lambda>i. i < - n) valid_indices then (d, Inl IndexError)
           else
             let pos = map (\<lambda>i. nat (if i < 0 then i + n else i)) valid_indices;
                 old = train_labels d;
                 flip0_1 = length (filter (\<lambda>p. old ! p = 0) pos);
                 flip1_0 = length (filter (\<lambda>p. old ! p = 1) pos);
                 d' = d\<lparr> train_labels := toggle_at pos old \<rparr>
             in (d', case get_state d' of
                       Inl e \<Rightarrow> Inl e
                     | Inr c \<Rightarrow> Inr (flip0_1, flip1_0, c)))"

subsection \<open>Sample views\<close>


text \<open>
  The first four lines of every \<^verbatim>\<open>__getitem__\<close>. In evaluation mode they read
  \<^verbatim>\<open>self.features_ps\<close>, an attribute that nothing in the file sets.
\<close>

definition fill_arrays ::
  "'a ncf_dataset_scheme \<Rightarrow> error + (nat \<times> nat) list \<times> int list \<times> int list \<times> int list" where
  "fill_arrays d =
     (if is_training d = 2 then Inl AttributeError
      else
        (case (features_fill d, labels_fill d, true_labels_fill d, read_train_labels_fill d) of
           (Some f, Some l, Some t, Some tr) \<Rightarrow> Inr (f, l, t, tr)
         | _ \<Rightarrow> Inl AttributeError))"











section \<open>NCF\_NeighborWise\_Dataset\<close>

text \<open>
  The attributes \<^verbatim>\<open>cluster_num\<close>, \<^verbatim>\<open>clusters_per_sample\<close> and \<^verbatim>\<open>cluster_ids\<close> are
  set by \<^verbatim>\<open>assign_cluster_ids\<close> and read only after it; before it they hold
  placeholders here.
\<close>

record ncf_neighborwise = ncf_dataset +
  group_size :: nat
  neighbor_type :: string
  cluster_num :: nat
  clusters_per_sample :: "int list"
  cluster_ids :: "int list"
  cluster_ids_fill :: "int list option"

text \<open>
  \<^verbatim>\<open>assign_cluster_ids\<close>. A neighbour type other than \<^verbatim>\<open>'user'\<close> and
  \<^verbatim>\<open>'item'\<close> leaves \<^verbatim>\<open>similarity_matrix\<close> and \<^verbatim>\<open>self.cluster_num\<close> unset, and the
  first read of either one raises.
\<close>

definition assign_cluster_ids ::
  "string \<Rightarrow> similarity \<Rightarrow> ncf_neighborwise \<Rightarrow> error + ncf_neighborwise" where
  "assign_cluster_ids nt sim d =
     (if nt = ''user'' \<or> nt = ''item'' then
        (if group_size d = 0 then Inl ZeroDivisionError
         else
           let unique_samples = (if nt = ''user'' then user_num d else item_num d);
               (cps, cnum) = assign_clusters sim unique_samples (group_size d);
               keys = (if nt = ''user'' then map fst (features d) else map snd (features d))
           in (case take_ids cps keys of
                 Inl e \<Rightarrow> Inl e
               | Inr ids \<Rightarrow>
                   Inr (d\<lparr> cluster_num := cnum, clusters_per_sample := cps,
                           cluster_ids := ids \<rparr>)))
      else if item_num d = 0 then Inl AttributeError
      else if group_size d = 0 then Inl ZeroDivisionError
      else if item_num d div group_size d = 0 then Inl AttributeError
      else Inl UnboundLocalError)"

definition neighborwise_new ::
  "nat \<Rightarrow> nat \<Rightarrow> (nat \<times> nat) list \<Rightarrow> (nat \<times> nat) list \<Rightarrow> int list \<Rightarrow> int \<Rightarrow> nat
     \<Rightarrow> nat \<Rightarrow> string \<Rightarrow> ncf_neighborwise" where
  "neighborwise_new un itn fs tm tls mode ng gs nt =
     ncf_dataset.extend (ncf_init un itn fs tm tls mode ng)
       (ncf_neighborwise.fields gs nt 0 [] [] None)"

definition neighborwise_init ::
  "nat \<Rightarrow> nat \<Rightarrow> (nat \<times> nat) list \<Rightarrow> (nat \<times> nat) list \<Rightarrow> int list \<Rightarrow> int \<Rightarrow> nat
     \<Rightarrow> nat \<Rightarrow> string \<Rightarrow> similarity \<Rightarrow> error + ncf_neighborwise" where
  "neighborwise_init un itn fs tm tls mode ng gs nt sim =
     (if \<not> 1 \<le> gs then Inl AssertionError
      else
        (case assign_cluster_ids nt sim (neighborwise_new un itn fs tm tls mode ng gs nt) of
           Inl e \<Rightarrow> Inl e
         | Inr d \<Rightarrow>
             if cluster_num d = unique_count (clusters_per_sample d) then Inr d
             else Inl AssertionError))"




section \<open>CDAE\_Neighbor\_Data\<close>





section \<open>Well-formed stores and partitions\<close>

text \<open>
  The data model of the store: one label of each kind per positive pair, and entity
  indices below the entity counts.
\<close>

definition aligned :: "'a ncf_dataset_scheme \<Rightarrow> bool" where
  "aligned d \<longleftrightarrow>
     length (labels d) = length (features d) \<and>
     length (train_labels d) = length (features d) \<and>
     length (true_labels d) = length (features d)"





section \<open>Positions touched by a flip\<close>

text \<open>
  The positions that \<^verbatim>\<open>flip_labels\<close> writes for an index list on an array of length
  \<open>n\<close>, and the condition under which it raises before writing.
\<close>

definition flip_positions :: "nat \<Rightarrow> int list \<Rightarrow> nat list" where
  "flip_positions n indices =
     map (\<lambda>i. nat (if i < 0 then i + int n else i)) (filter (\<lambda>i. i < int n) indices)"

definition flip_raises :: "'a ncf_dataset_scheme \<Rightarrow> int list \<Rightarrow> bool" where
  "flip_raises d indices \<longleftrightarrow>
     is_training d = 2 \<or>
     list_ex (\<lambda>i. i < - int (length (train_labels d)))
       (filter (\<lambda>i. i < int (length (train_labels d))) indices)"

section \<open>Properties of the cluster assignment\<close>

subsection \<open>The inner loop\<close>

lemma finite_unassigned [simp]: "finite (unassigned cps)"
  by (simp add: unassigned_def)

lemma unassigned_update:
  assumes "x < length cps" "v \<noteq> - 1"
  shows "unassigned (cps[x := v]) = unassigned cps - {x}"
  using assms by (auto simp: unassigned_def nth_list_update)

lemma fill_group_length [simp]:
  "length (fill_group gs cid cps g cands) = length cps"
  by (induction cands arbitrary: cps g) auto

lemma fill_group_nth:
  "i < length cps \<Longrightarrow>
     fill_group gs cid cps g cands ! i = cps ! i \<or>
     (cps ! i = - 1 \<and> fill_group gs cid cps g cands ! i = cid)"
proof (induction cands arbitrary: cps g)
  case Nil
  then show ?case by simp
next
  case (Cons x rest)
  show ?case
  proof (cases "cps ! x = - 1")
    case False
    with Cons show ?thesis by simp
  next
    case unset: True
    show ?thesis
    proof (cases "gs \<le> g + 1")
      case True
      with unset Cons.prems show ?thesis
        by (cases "x = i") (simp_all add: nth_list_update)
    next
      case False
      from Cons.prems have "i < length (cps[x := cid])" by simp
      from Cons.IH [OF this, of "g + 1"] unset False Cons.prems show ?thesis
        by (cases "x = i") (auto simp: nth_list_update)
    qed
  qed
qed

lemma fill_group_card:
  assumes "distinct cands" "set cands \<subseteq> {..<length cps}" "g < gs" "cid \<noteq> - 1"
  shows "card (unassigned (fill_group gs cid cps g cands)) =
           card (unassigned cps) - min (gs - g) (card (unassigned cps \<inter> set cands))"
  using assms
proof (induction cands arbitrary: cps g)
  case Nil
  then show ?case by simp
next
  case (Cons x rest)
  from Cons.prems have x: "x < length cps" "x \<notin> set rest" and d: "distinct rest"
    and sub: "set rest \<subseteq> {..<length cps}" by auto
  show ?case
  proof (cases "cps ! x = - 1")
    case False
    then have "x \<notin> unassigned cps" by (simp add: unassigned_def)
    then have "unassigned cps \<inter> set (x # rest) = unassigned cps \<inter> set rest" by auto
    with False Cons.IH [OF d sub Cons.prems(3,4)] show ?thesis by simp
  next
    case unset: True
    then have xin: "x \<in> unassigned cps" using x by (simp add: unassigned_def)
    have U': "unassigned (cps[x := cid]) = unassigned cps - {x}"
      using x(1) Cons.prems(4) by (rule unassigned_update)
    have split: "unassigned cps \<inter> set (x # rest) = insert x (unassigned cps \<inter> set rest)"
      using xin by auto
    have cardsplit: "card (unassigned cps \<inter> set (x # rest)) = Suc (card (unassigned cps \<inter> set rest))"
      unfolding split using x by simp
    have c1: "card (unassigned cps - {x}) = card (unassigned cps) - 1"
      using xin by simp
    have pos: "0 < card (unassigned cps)"
      using xin by (auto simp: card_gt_0_iff)
    show ?thesis
    proof (cases "gs \<le> g + 1")
      case True
      with Cons.prems(3) have "gs - g = 1" by simp
      with True unset U' c1 cardsplit show ?thesis by simp
    next
      case False
      then have g': "g + 1 < gs" by simp
      have sub': "set rest \<subseteq> {..<length (cps[x := cid])}" using sub by simp
      have inter: "(unassigned cps - {x}) \<inter> set rest = unassigned cps \<inter> set rest"
        using x by auto
      from Cons.IH [OF d sub' g' Cons.prems(4)] False unset
      have "card (unassigned (fill_group gs cid cps g (x # rest))) =
              card (unassigned cps) - 1 - min (gs - (g + 1)) (card (unassigned cps \<inter> set rest))"
        by (simp add: inter U' c1)
      with cardsplit pos g' show ?thesis by (simp add: min_def)
    qed
  qed
qed

lemma cluster_loop_step:
  "cluster_loop sim n gs (s # rest) (cps, c) =
     (if c = n div gs then (cps, c)
      else if cps ! s \<noteq> - 1 then cluster_loop sim n gs rest (cps, c)
      else cluster_loop sim n gs rest (new_cluster sim n gs s cps c, c + 1))"
  by (simp add: new_cluster_def Let_def)

lemma new_cluster_length [simp]: "length (new_cluster sim n gs s cps c) = length cps"
  by (simp add: new_cluster_def)

lemma new_cluster_nth:
  assumes "i < length cps" "s < length cps"
  shows "new_cluster sim n gs s cps c ! s = int c"
    and "cps ! i \<noteq> - 1 \<Longrightarrow> i \<noteq> s \<Longrightarrow> new_cluster sim n gs s cps c ! i = cps ! i"
    and "new_cluster sim n gs s cps c ! i = cps ! i \<or> new_cluster sim n gs s cps c ! i = int c"
proof -
  let ?cps1 = "cps[s := int c]"
  have one: "?cps1 ! j = (if j = s then int c else cps ! j)" if "j < length cps" for j
    using that by (simp add: nth_list_update)
  have fg: "fill_group gs (int c) ?cps1 1 cands ! j = ?cps1 ! j \<or>
        (?cps1 ! j = - 1 \<and> fill_group gs (int c) ?cps1 1 cands ! j = int c)"
    if "j < length cps" for cands j
    by (rule fill_group_nth) (use that in simp)
  show "new_cluster sim n gs s cps c ! s = int c"
    using fg [of s "tl (similar_samples sim n s)"] one [of s] assms
    by (auto simp: new_cluster_def)
  show "new_cluster sim n gs s cps c ! i = cps ! i" if "cps ! i \<noteq> - 1" "i \<noteq> s"
    using fg [of i "tl (similar_samples sim n s)"] one [of i] assms that
    by (auto simp: new_cluster_def)
  show "new_cluster sim n gs s cps c ! i = cps ! i \<or> new_cluster sim n gs s cps c ! i = int c"
    using fg [of i "tl (similar_samples sim n s)"] one [of i] assms
    by (auto simp: new_cluster_def)
qed

lemma cluster_loop_inv:
  assumes "s \<le> n" "length cps = n" "c \<le> n div gs"
    and "\<forall>i<s. cps ! i \<noteq> - 1"
    and "\<forall>i<n. cps ! i = - 1 \<or> (0 \<le> cps ! i \<and> cps ! i < int c)"
    and "\<forall>k<c. int k \<in> set cps"
    and "cluster_loop sim n gs [s..<n] (cps, c) = (cps', c')"
  shows "length cps' = n \<and> c' \<le> n div gs \<and>
         (\<forall>i<n. cps' ! i = - 1 \<or> (0 \<le> cps' ! i \<and> cps' ! i < int c')) \<and>
         (\<forall>k<c'. int k \<in> set cps') \<and>
         (c' = n div gs \<or> unassigned cps' = {})"
  using assms
proof (induction "n - s" arbitrary: s cps c)
  case 0
  then have "s = n" by simp
  with 0 show ?case by (auto simp: unassigned_def)
next
  case (Suc m)
  then have sn: "s < n" and m: "m = n - Suc s" by simp_all
  have upt: "[s..<n] = s # [Suc s..<n]" using sn by (rule upt_conv_Cons)
  note run = Suc.prems(7) [unfolded upt cluster_loop_step]
  show ?case
  proof (cases "c = n div gs")
    case True
    with run Suc.prems show ?thesis by simp
  next
    case nobreak: False
    show ?thesis
    proof (cases "cps ! s \<noteq> - 1")
      case True
      with run nobreak have r: "cluster_loop sim n gs [Suc s..<n] (cps, c) = (cps', c')" by simp
      have "\<forall>i<Suc s. cps ! i \<noteq> - 1"
        using Suc.prems(4) True by (auto simp: less_Suc_eq)
      from Suc.hyps(1) [OF m _ Suc.prems(2,3) this Suc.prems(5,6) r] sn show ?thesis by simp
    next
      case False
      then have unset: "cps ! s = - 1" by simp
      let ?cps2 = "new_cluster sim n gs s cps c"
      from run nobreak unset
      have r: "cluster_loop sim n gs [Suc s..<n] (?cps2, c + 1) = (cps', c')" by simp
      have sl: "s < length cps" using sn Suc.prems(2) by simp
      have l2: "length ?cps2 = n" using Suc.prems(2) by simp
      have c2: "c + 1 \<le> n div gs" using nobreak Suc.prems(3) by simp
      have keep: "?cps2 ! i = cps ! i" if "i < n" "cps ! i \<noteq> - 1" for i
        using new_cluster_nth(2) [of i cps s sim n gs c] that sl unset Suc.prems(2) by auto
      have a2: "\<forall>i<Suc s. ?cps2 ! i \<noteq> - 1"
      proof (intro allI impI)
        fix i assume "i < Suc s"
        then consider "i = s" | "i < s" by (auto simp: less_Suc_eq)
        then show "?cps2 ! i \<noteq> - 1"
        proof cases
          case 1
          then show ?thesis using new_cluster_nth(1) [of s cps s sim n gs c] sl by simp
        next
          case 2
          then have "cps ! i \<noteq> - 1" using Suc.prems(4) by simp
          moreover have "i < n" using 2 sn by simp
          ultimately show ?thesis using keep by simp
        qed
      qed
      have v2: "\<forall>i<n. ?cps2 ! i = - 1 \<or> (0 \<le> ?cps2 ! i \<and> ?cps2 ! i < int (c + 1))"
      proof (intro allI impI)
        fix i assume i: "i < n"
        from new_cluster_nth(3) [of i cps s sim n gs c] i sl Suc.prems(2)
        have "?cps2 ! i = cps ! i \<or> ?cps2 ! i = int c" by simp
        with Suc.prems(5) i show "?cps2 ! i = - 1 \<or> (0 \<le> ?cps2 ! i \<and> ?cps2 ! i < int (c + 1))"
          by force
      qed
      have u2: "\<forall>k<c + 1. int k \<in> set ?cps2"
      proof (intro allI impI)
        fix k assume "k < c + 1"
        then consider "k = c" | "k < c" by (auto simp: less_Suc_eq)
        then show "int k \<in> set ?cps2"
        proof cases
          case 1
          have "?cps2 ! s = int c" using new_cluster_nth(1) [of s cps s sim n gs c] sl by simp
          with 1 sn l2 show ?thesis by (metis nth_mem)
        next
          case 2
          with Suc.prems(6) have "int k \<in> set cps" by simp
          then obtain i where i: "i < length cps" "cps ! i = int k"
            by (auto simp: in_set_conv_nth)
          then have "?cps2 ! i = int k" using keep [of i] Suc.prems(2) by simp
          with i l2 Suc.prems(2) show ?thesis by (metis nth_mem)
        qed
      qed
      from Suc.hyps(1) [OF m _ l2 c2 a2 v2 u2 r] sn show ?thesis by simp
    qed
  qed
qed

lemma similar_samples_set [simp]: "set (similar_samples sim n s) = {..<n}"
  by (auto simp: similar_samples_def)

lemma similar_samples_distinct [simp]: "distinct (similar_samples sim n s)"
  by (simp add: similar_samples_def)

lemma similar_samples_hd:
  assumes "s < n" "\<forall>j<n. sim s j \<le> sim s s"
  shows "hd (similar_samples sim n s) \<le> s"
proof -
  let ?f = "\<lambda>j. - sim s j"
  let ?L = "similar_samples sim n s"
  have "length ?L = n" by (simp add: similar_samples_def)
  then have ne: "?L \<noteq> []" using assms(1) by auto
  then obtain h t where L: "?L = h # t" by (cases ?L) auto
  have hn: "h < n" using similar_samples_set [of sim n s] L by auto
  have "sorted (map ?f ?L)" by (simp add: similar_samples_def)
  moreover have "s \<in> set ?L" using assms(1) by simp
  ultimately have "?f h \<le> ?f s" unfolding L by auto
  moreover have "?f s \<le> ?f h" using assms(2) hn by simp
  ultimately have key: "?f h = ?f s" by simp
  have "filter (\<lambda>y. ?f y = ?f s) ?L = filter (\<lambda>y. ?f y = ?f s) [0..<n]"
    unfolding similar_samples_def by (rule sort_key_stable)
  then have "h # filter (\<lambda>y. ?f y = ?f s) t = filter (\<lambda>y. ?f y = ?f s) [0..<n]"
    using key unfolding L by simp
  moreover have "sorted (filter (\<lambda>y. ?f y = ?f s) [0..<n])" by (rule sorted_wrt_filter) simp
  moreover have "s \<in> set (filter (\<lambda>y. ?f y = ?f s) [0..<n])" using assms(1) by simp
  ultimately have "h \<le> s" by (metis order_refl set_ConsD sorted_simps(2))
  then show ?thesis by (simp add: L)
qed

lemma new_cluster_card:
  assumes "s < n" "length cps = n" "cps ! s = - 1" "\<forall>i<s. cps ! i \<noteq> - 1"
    and "hd (similar_samples sim n s) \<le> s" "1 \<le> gs" "gs \<le> card (unassigned cps)"
  shows "card (unassigned (new_cluster sim n gs s cps c)) + gs = card (unassigned cps)"
proof -
  let ?cps1 = "cps[s := int c]"
  let ?cands = "tl (similar_samples sim n s)"
  have sin: "s \<in> unassigned cps" using assms(1-3) by (simp add: unassigned_def)
  have U1: "unassigned ?cps1 = unassigned cps - {s}"
    by (rule unassigned_update) (use assms in simp_all)
  then have c1: "card (unassigned ?cps1) = card (unassigned cps) - 1" using sin by simp
  show ?thesis
  proof (cases "1 < gs")
    case False
    with assms(6) have "gs = 1" by simp
    with c1 assms(7) show ?thesis by (simp add: new_cluster_def)
  next
    case True
    have "length (similar_samples sim n s) = n" by (simp add: similar_samples_def)
    then have ne: "similar_samples sim n s \<noteq> []" using assms(1) by auto
    have d: "distinct ?cands" by (simp add: distinct_tl)
    have sub: "set ?cands \<subseteq> {..<length ?cps1}"
      using list.set_sel(2) [OF ne] similar_samples_set [of sim n s] assms(2) by auto
    have cover: "unassigned ?cps1 \<subseteq> set ?cands"
    proof
      fix e assume "e \<in> unassigned ?cps1"
      then have e: "e \<in> unassigned cps" "e \<noteq> s" unfolding U1 by auto
      then have en: "e < n" "cps ! e = - 1" using assms(2) by (auto simp: unassigned_def)
      with assms(4) have "\<not> e < s" by auto
      with e(2) assms(5) have "e \<noteq> hd (similar_samples sim n s)" by simp
      moreover have "e \<in> set (similar_samples sim n s)" using en(1) by simp
      ultimately show "e \<in> set ?cands" using ne by (cases "similar_samples sim n s") auto
    qed
    then have inter: "unassigned ?cps1 \<inter> set ?cands = unassigned ?cps1" by auto
    have "card (unassigned (fill_group gs (int c) ?cps1 1 ?cands)) =
            card (unassigned ?cps1) - min (gs - 1) (card (unassigned ?cps1 \<inter> set ?cands))"
      by (rule fill_group_card [OF d sub True]) simp
    with inter c1 assms(7) True show ?thesis by (simp add: new_cluster_def min_def)
  qed
qed

lemma cluster_loop_card:
  assumes "1 \<le> gs" "\<forall>s<n. hd (similar_samples sim n s) \<le> s"
    and "s \<le> n" "length cps = n" "c \<le> n div gs"
    and "\<forall>i<s. cps ! i \<noteq> - 1"
    and "card (unassigned cps) + c * gs = n"
    and "cluster_loop sim n gs [s..<n] (cps, c) = (cps', c')"
  shows "card (unassigned cps') + c' * gs = n"
  using assms(3-)
proof (induction "n - s" arbitrary: s cps c)
  case 0
  then show ?case by simp
next
  case (Suc m)
  then have sn: "s < n" and m: "m = n - Suc s" by simp_all
  have upt: "[s..<n] = s # [Suc s..<n]" using sn by (rule upt_conv_Cons)
  note run = Suc.prems(6) [unfolded upt cluster_loop_step]
  show ?case
  proof (cases "c = n div gs")
    case True
    with run Suc.prems show ?thesis by simp
  next
    case nobreak: False
    show ?thesis
    proof (cases "cps ! s \<noteq> - 1")
      case True
      with run nobreak have r: "cluster_loop sim n gs [Suc s..<n] (cps, c) = (cps', c')" by simp
      have "\<forall>i<Suc s. cps ! i \<noteq> - 1"
        using Suc.prems(4) True by (auto simp: less_Suc_eq)
      from Suc.hyps(1) [OF m _ Suc.prems(2,3) this Suc.prems(5) r] sn show ?thesis by simp
    next
      case False
      then have unset: "cps ! s = - 1" by simp
      let ?cps2 = "new_cluster sim n gs s cps c"
      from run nobreak unset
      have r: "cluster_loop sim n gs [Suc s..<n] (?cps2, c + 1) = (cps', c')" by simp
      have sl: "s < length cps" using sn Suc.prems(2) by simp
      have l2: "length ?cps2 = n" using Suc.prems(2) by simp
      have c2: "c + 1 \<le> n div gs" using nobreak Suc.prems(3) by simp
      then have "(c + 1) * gs \<le> n div gs * gs" by (rule mult_le_mono1)
      also have "\<dots> \<le> n" by simp
      finally have "(c + 1) * gs \<le> n" .
      with Suc.prems(5) have room: "gs \<le> card (unassigned cps)" by simp
      have hd: "hd (similar_samples sim n s) \<le> s" using assms(2) sn by simp
      have card2: "card (unassigned ?cps2) + gs = card (unassigned cps)"
        by (rule new_cluster_card [OF sn Suc.prems(2) unset Suc.prems(4) hd assms(1) room])
      with Suc.prems(5) have k2: "card (unassigned ?cps2) + (c + 1) * gs = n" by simp
      have a2: "\<forall>i<Suc s. ?cps2 ! i \<noteq> - 1"
      proof (intro allI impI)
        fix i assume "i < Suc s"
        then consider "i = s" | "i < s" by (auto simp: less_Suc_eq)
        then show "?cps2 ! i \<noteq> - 1"
        proof cases
          case 1
          then show ?thesis using new_cluster_nth(1) [of s cps s sim n gs c] sl by simp
        next
          case 2
          then have "cps ! i \<noteq> - 1" using Suc.prems(4) by simp
          moreover have "i < length cps" using 2 sl by simp
          ultimately show ?thesis using new_cluster_nth(2) [of i cps s sim n gs c] sl 2 by simp
        qed
      qed
      from Suc.hyps(1) [OF m _ l2 c2 a2 k2 r] sn show ?thesis by simp
    qed
  qed
qed

subsection \<open>The result of the whole assignment\<close>

lemma unassigned_replicate: "unassigned (replicate n (- 1)) = {..<n}"
  by (auto simp: unassigned_def)

lemma cluster_count_bounds:
  "n div gs \<le> cluster_count n gs"
  "cluster_count n gs \<le> n div gs \<Longrightarrow> n mod gs = 0"
  by (auto simp: cluster_count_def split: if_splits)


lemma assign_clusters_split:
  obtains cps c where
    "cluster_loop sim n gs [0..<n] (replicate n (- 1), 0) = (cps, c)"
    "assign_clusters sim n gs = (repair_pass c (cluster_count n gs) cps, cluster_count n gs)"
  by (cases "cluster_loop sim n gs [0..<n] (replicate n (- 1), 0)")
     (simp add: assign_clusters_def Let_def)

lemma loop_from_start:
  assumes "cluster_loop sim n gs [0..<n] (replicate n (- 1), 0) = (cps, c)"
  shows "length cps = n" "c \<le> n div gs"
    "\<forall>i<n. cps ! i = - 1 \<or> (0 \<le> cps ! i \<and> cps ! i < int c)"
    "\<forall>k<c. int k \<in> set cps"
    "c = n div gs \<or> unassigned cps = {}"
  using cluster_loop_inv [of 0 n "replicate n (- 1)" 0 gs sim cps c] assms by simp_all

lemma loop_from_start_card:
  assumes "1 \<le> gs" "\<forall>s<n. hd (similar_samples sim n s) \<le> s"
    and "cluster_loop sim n gs [0..<n] (replicate n (- 1), 0) = (cps, c)"
  shows "card (unassigned cps) + c * gs = n"
  using cluster_loop_card [of gs n sim 0 "replicate n (- 1)" 0 cps c] assms
  by (simp add: unassigned_replicate)

lemma coverage_of_ranking:
  assumes "1 \<le> gs" "\<forall>s<n. hd (similar_samples sim n s) \<le> s" "i < n"
  shows "0 \<le> fst (assign_clusters sim n gs) ! i"
    and "fst (assign_clusters sim n gs) ! i < int (cluster_count n gs)"
proof -
  obtain cps c where
    loop: "cluster_loop sim n gs [0..<n] (replicate n (- 1), 0) = (cps, c)" and
    res: "assign_clusters sim n gs = (repair_pass c (cluster_count n gs) cps, cluster_count n gs)"
    by (rule assign_clusters_split)
  note inv = loop_from_start [OF loop]
  have card: "card (unassigned cps) + c * gs = n"
    by (rule loop_from_start_card [OF assms(1,2) loop])
  have il: "i < length cps" using inv(1) assms(3) by simp
  have val: "cps ! i = - 1 \<or> (0 \<le> cps ! i \<and> cps ! i < int c)" using inv(3) assms(3) by simp
  have "0 \<le> repair_pass c (cluster_count n gs) cps ! i \<and>
        repair_pass c (cluster_count n gs) cps ! i < int (cluster_count n gs)"
  proof (cases "c < cluster_count n gs")
    case True
    with val il show ?thesis by (auto simp: repair_pass_def)
  next
    case False
    then have le: "cluster_count n gs \<le> c" by simp
    with inv(2) cluster_count_bounds(1) [of n gs] have ceq: "c = n div gs" "cluster_count n gs = c"
      by simp_all
    with cluster_count_bounds(2) [of n gs] have "n mod gs = 0" by simp
    then have "c * gs = n" using ceq(1) div_mult_mod_eq [of n gs] by simp
    with card have "unassigned cps = {}" by simp
    with il have "cps ! i \<noteq> - 1" by (auto simp: unassigned_def)
    with val False ceq show ?thesis by (simp add: repair_pass_def)
  qed
  then show "0 \<le> fst (assign_clusters sim n gs) ! i"
    and "fst (assign_clusters sim n gs) ! i < int (cluster_count n gs)"
    by (simp_all add: res)
qed

lemma snd_assign_clusters [simp]: "snd (assign_clusters sim n gs) = cluster_count n gs"
  by (rule assign_clusters_split [of sim n gs]) simp

lemma length_assign_clusters [simp]: "length (fst (assign_clusters sim n gs)) = n"
proof -
  obtain cps c where
    loop: "cluster_loop sim n gs [0..<n] (replicate n (- 1), 0) = (cps, c)" and
    res: "assign_clusters sim n gs = (repair_pass c (cluster_count n gs) cps, cluster_count n gs)"
    by (rule assign_clusters_split)
  from loop_from_start(1) [OF loop] res show ?thesis by (simp add: repair_pass_def)
qed

subsection \<open>Coverage\<close>




subsection \<open>Five entities, groups of two\<close>

text \<open>
  Claim C2. With five entities and group size two, let the ranking of entity 0 start
  with 0 and then 1, and the ranking of entity 2 start with 2 and then 3. Then
  \<^verbatim>\<open>cluster_num\<close> is 3, the main loop leaves clusters \<open>{0,1}\<close> with id 0 and
  \<open>{2,3}\<close> with id 1 and entity 4 unassigned, and the repair pass gives entity 4 the
  id 2.
\<close>

theorem five_entities_in_pairs:
  assumes "similar_samples sim 5 0 = 0 # 1 # r0" "similar_samples sim 5 2 = 2 # 3 # r2"
  shows "cluster_count 5 2 = 3 \<and>
         cluster_loop sim 5 2 [0..<5] (replicate 5 (- 1), 0) = ([0, 0, 1, 1, - 1], 2) \<and>
         assign_clusters sim 5 2 = ([0, 0, 1, 1, 2], 3)"
proof -
  have c: "cluster_count 5 2 = 3" by (simp add: cluster_count_def)
  have five: "[0..<5] = [0, 1, 2, 3, 4]" by (simp add: upt_rec)
  have rep: "replicate 5 (- 1 :: int) = [- 1, - 1, - 1, - 1, - 1]" by (simp add: numeral_eq_Suc)
  have loop: "cluster_loop sim 5 2 [0..<5] (replicate 5 (- 1), 0) = ([0, 0, 1, 1, - 1], 2)"
    unfolding five rep using assms by simp
  show ?thesis using c loop by (simp add: assign_clusters_def repair_pass_def)
qed

theorem five_entities_in_pairs_witness:
  "similar_samples (\<lambda>i j. if i = j then 1 else if (i = 0 \<and> j = 1) \<or> (i = 2 \<and> j = 3) then 1 / 2 else 0) 5 0 = 0 # 1 # [2, 3, 4] \<and>
   similar_samples (\<lambda>i j. if i = j then 1 else if (i = 0 \<and> j = 1) \<or> (i = 2 \<and> j = 3) then 1 / 2 else 0) 5 2 = 2 # 3 # [0, 1, 4] \<and>
   assign_clusters (\<lambda>i j. if i = j then 1 else if (i = 0 \<and> j = 1) \<or> (i = 2 \<and> j = 3) then 1 / 2 else 0) 5 2 = ([0, 0, 1, 1, 2], 3)"
proof -
  let ?m = "\<lambda>i j :: nat. if i = j then 1 else if (i = 0 \<and> j = 1) \<or> (i = 2 \<and> j = 3) then 1 / 2 else 0 :: rat"
  have a: "similar_samples ?m 5 0 = 0 # 1 # [2, 3, 4]" by code_simp
  have b: "similar_samples ?m 5 2 = 2 # 3 # [0, 1, 4]" by code_simp
  from five_entities_in_pairs [OF a b] a b show ?thesis by simp
qed

section \<open>The cluster count assertion of the constructors\<close>

lemma unique_count_card: "unique_count a = card (set a)"
  by (simp add: unique_count_def card_set)

lemma neighborwise_new_simps [simp]:
  "group_size (neighborwise_new un itn fs tm tls mode ng gs nt) = gs"
  "neighbor_type (neighborwise_new un itn fs tm tls mode ng gs nt) = nt"
  "user_num (neighborwise_new un itn fs tm tls mode ng gs nt) = un"
  "item_num (neighborwise_new un itn fs tm tls mode ng gs nt) = itn"
  "features (neighborwise_new un itn fs tm tls mode ng gs nt) = fs"
  "true_labels (neighborwise_new un itn fs tm tls mode ng gs nt) = tls"
  "labels (neighborwise_new un itn fs tm tls mode ng gs nt) = replicate (length fs) 1"
  "train_labels (neighborwise_new un itn fs tm tls mode ng gs nt) = replicate (length fs) 1"
  "train_mat (neighborwise_new un itn fs tm tls mode ng gs nt) = tm"
  "num_ng (neighborwise_new un itn fs tm tls mode ng gs nt) = ng"
  "is_training (neighborwise_new un itn fs tm tls mode ng gs nt) = mode"
  by (simp_all add: neighborwise_new_def ncf_init_def ncf_dataset.defs ncf_neighborwise.defs)



text \<open>
  For a similarity matrix that ranks every entity among the most similar to itself the
  assertion of the constructors holds, and the constructor returns when the pairs stay
  inside the entity counts.
\<close>

lemma repair_pass_keeps:
  assumes "x \<in> set cps" "x \<noteq> - 1"
  shows "x \<in> set (repair_pass c k cps)"
  using assms by (force simp: repair_pass_def)

lemma assertion_holds_self_ranked:
  assumes "1 \<le> gs" "\<forall>s<n. \<forall>j<n. sim s j \<le> sim s s"
  shows "unique_count (fst (assign_clusters sim n gs)) = cluster_count n gs"
proof -
  have hd: "\<forall>s<n. hd (similar_samples sim n s) \<le> s"
    using assms(2) by (auto intro: similar_samples_hd)
  obtain cps c where
    loop: "cluster_loop sim n gs [0..<n] (replicate n (- 1), 0) = (cps, c)" and
    res: "assign_clusters sim n gs = (repair_pass c (cluster_count n gs) cps, cluster_count n gs)"
    by (rule assign_clusters_split)
  note inv = loop_from_start [OF loop]
  have card: "card (unassigned cps) + c * gs = n"
    by (rule loop_from_start_card [OF assms(1) hd loop])
  let ?K = "cluster_count n gs"
  let ?r = "repair_pass c ?K cps"
  have r: "fst (assign_clusters sim n gs) = ?r" by (simp add: res)
  have c: "c = n div gs"
  proof (cases "unassigned cps = {}")
    case True
    with card have "c * gs = n" by simp
    then show ?thesis using assms(1) by auto
  next
    case False
    with inv(5) show ?thesis by simp
  qed
  have sub: "set ?r \<subseteq> int ` {..<?K}"
  proof
    fix x assume "x \<in> set ?r"
    then obtain i where i: "i < n" "?r ! i = x"
      using length_assign_clusters [of sim n gs] r by (metis in_set_conv_nth)
    from coverage_of_ranking [OF assms(1) hd i(1)] i(2) r
    have "0 \<le> x" "x < int ?K" by simp_all
    then have "nat x < ?K" "int (nat x) = x" by linarith+
    then show "x \<in> int ` {..<?K}" by (metis imageI lessThan_iff)
  qed
  have sup: "int ` {..<?K} \<subseteq> set ?r"
  proof
    fix x assume "x \<in> int ` {..<?K}"
    then obtain k where k: "k < ?K" "x = int k" by auto
    show "x \<in> set ?r"
    proof (cases "k < c")
      case True
      with inv(4) have "int k \<in> set cps" by simp
      then show ?thesis unfolding k(2) by (rule repair_pass_keeps) simp
    next
      case False
      with k(1) have cK: "c < ?K" by simp
      then have "n mod gs \<noteq> 0" "?K = c + 1"
        using c by (auto simp: cluster_count_def split: if_splits)
      with False k(1) have kc: "k = c" by simp
      have e: "n div gs * gs + n mod gs = n" by (rule div_mult_mod_eq)
      from e \<open>n mod gs \<noteq> 0\<close> have "n div gs * gs < n" by arith
      then have "c * gs < n" by (simp only: c)
      with card have "unassigned cps \<noteq> {}" by auto
      then obtain i where i: "i < length cps" "cps ! i = - 1" by (auto simp: unassigned_def)
      then have "?r ! i = int c" using cK by (simp add: repair_pass_def)
      moreover have "i < length ?r" using i(1) by (simp add: repair_pass_def)
      ultimately show ?thesis unfolding k(2) kc by (metis nth_mem)
    qed
  qed
  from sub sup have "set ?r = int ` {..<?K}" by auto
  then have "card (set ?r) = ?K" by (simp add: card_image)
  then show ?thesis by (simp add: r unique_count_card)
qed

lemma neighborwise_init_returns:
  assumes "1 \<le> gs" "nt = ''user'' \<or> nt = ''item''"
    and "\<forall>s<(if nt = ''user'' then un else itn). \<forall>j<(if nt = ''user'' then un else itn).
           sim s j \<le> sim s s"
    and "list_all (\<lambda>p. fst p < un \<and> snd p < itn) fs"
  shows "\<exists>dn. neighborwise_init un itn fs tm tls mode ng gs nt sim = Inr dn"
proof -
  let ?n = "if nt = ''user'' then un else itn"
  let ?new = "neighborwise_new un itn fs tm tls mode ng gs nt"
  let ?keys = "if nt = ''user'' then map fst fs else map snd fs"
  have u: "unique_count (fst (assign_clusters sim ?n gs)) = cluster_count ?n gs"
    by (rule assertion_holds_self_ranked [OF assms(1,3)])
  have "list_all (\<lambda>k. k < length (fst (assign_clusters sim ?n gs))) ?keys"
    using assms(4) by (auto simp: list_all_iff)
  then obtain ids where t: "take_ids (fst (assign_clusters sim ?n gs)) ?keys = Inr ids"
    by (simp add: take_ids_def)
  obtain cps k where a: "assign_clusters sim ?n gs = (cps, k)"
    by (cases "assign_clusters sim ?n gs")
  then have k: "k = cluster_count ?n gs" "cps = fst (assign_clusters sim ?n gs)"
    using snd_assign_clusters [of sim ?n gs] by simp_all
  have t': "take_ids cps ?keys = Inr ids" using t k by simp
  have "assign_cluster_ids nt sim ?new =
      Inr (?new\<lparr> cluster_num := k, clusters_per_sample := cps, cluster_ids := ids \<rparr>)"
    using assms(1,2) a t' by (auto simp: assign_cluster_ids_def)
  then show ?thesis using assms(1) u k by (simp add: neighborwise_init_def)
qed



section \<open>Properties of negative sampling\<close>

lemma draw_negative_Some:
  assumes "draw_negative tm u rs = Some (j, rs1)"
  shows "(u, j) \<notin> set tm" "j \<in> set rs" "set rs1 \<subseteq> set rs"
  using assms by (induction rs) (auto split: if_splits)

lemma sample_pass_Some:
  assumes "sample_pass tm fs rs = Some (ns, rs1)"
  shows "map fst ns = map fst fs" "\<forall>p\<in>set ns. p \<notin> set tm \<and> snd p \<in> set rs" "set rs1 \<subseteq> set rs"
  using assms
proof (induction fs arbitrary: rs ns rs1)
  case Nil
  { case 1 then show ?case by simp
  next case 2 then show ?case by simp
  next case 3 then show ?case by simp }
next
  case (Cons f fs)
  obtain u i where f: "f = (u, i)" by (cases f)
  { case 1
    then obtain j ra ms where d: "draw_negative tm u rs = Some (j, ra)"
      and p: "sample_pass tm fs ra = Some (ms, rs1)" and ns: "ns = (u, j) # ms"
      by (auto simp: f split: option.splits prod.splits)
    from Cons.IH(1) [OF p] ns f show ?case by simp
  next
    case 2
    then obtain j ra ms where d: "draw_negative tm u rs = Some (j, ra)"
      and p: "sample_pass tm fs ra = Some (ms, rs1)" and ns: "ns = (u, j) # ms"
      by (auto simp: f split: option.splits prod.splits)
    from Cons.IH(2) [OF p] draw_negative_Some [OF d] ns show ?case by auto
  next
    case 3
    then obtain j ra ms where d: "draw_negative tm u rs = Some (j, ra)"
      and p: "sample_pass tm fs ra = Some (ms, rs1)" and ns: "ns = (u, j) # ms"
      by (auto simp: f split: option.splits prod.splits)
    from Cons.IH(3) [OF p] draw_negative_Some [OF d] show ?case by auto }
qed

lemma sample_passes_Some:
  assumes "sample_passes tm fs k rs = Some (ns, rs1)"
  shows "map fst ns = concat (replicate k (map fst fs))"
    "\<forall>p\<in>set ns. p \<notin> set tm \<and> snd p \<in> set rs" "set rs1 \<subseteq> set rs"
  using assms
proof (induction k arbitrary: rs ns rs1)
  case 0
  { case 1 then show ?case by simp
  next case 2 then show ?case by simp
  next case 3 then show ?case by simp }
next
  case (Suc k)
  { case 1
    then obtain as ra bs where p: "sample_pass tm fs rs = Some (as, ra)"
      and q: "sample_passes tm fs k ra = Some (bs, rs1)" and ns: "ns = as @ bs"
      by (auto split: option.splits prod.splits)
    from Suc.IH(1) [OF q] sample_pass_Some(1) [OF p] ns show ?case by simp
  next
    case 2
    then obtain as ra bs where p: "sample_pass tm fs rs = Some (as, ra)"
      and q: "sample_passes tm fs k ra = Some (bs, rs1)" and ns: "ns = as @ bs"
      by (auto split: option.splits prod.splits)
    from Suc.IH(2) [OF q] sample_pass_Some(2,3) [OF p] ns show ?case by auto
  next
    case 3
    then obtain as ra bs where p: "sample_pass tm fs rs = Some (as, ra)"
      and q: "sample_passes tm fs k ra = Some (bs, rs1)" and ns: "ns = as @ bs"
      by (auto split: option.splits prod.splits)
    from Suc.IH(3) [OF q] sample_pass_Some(3) [OF p] show ?case by auto }
qed

lemma sample_passes_length:
  assumes "sample_passes tm fs k rs = Some (ns, rs1)"
  shows "length ns = k * length fs"
proof -
  have "length ns = length (map fst ns)" by simp
  also have "\<dots> = length (concat (replicate k (map fst fs)))"
    by (simp only: sample_passes_Some(1) [OF assms])
  also have "\<dots> = k * length fs" by (induction k) simp_all
  finally show ?thesis .
qed

text \<open>Draws that no user has interacted with, one per pair and pass, make the sampler return.\<close>

lemma draw_negative_fresh:
  assumes "rs \<noteq> []" "(u, hd rs) \<notin> set tm"
  shows "draw_negative tm u rs = Some (hd rs, tl rs)"
  using assms by (cases rs) auto

lemma sample_pass_fresh:
  assumes "length fs \<le> length rs" "\<forall>r\<in>set rs. \<forall>p\<in>set fs. (fst p, r) \<notin> set tm"
  shows "\<exists>ns. sample_pass tm fs rs = Some (ns, drop (length fs) rs)"
  using assms
proof (induction fs arbitrary: rs)
  case Nil
  then show ?case by simp
next
  case (Cons f fs)
  obtain u i where f: "f = (u, i)" by (cases f)
  from Cons.prems obtain r rest where rs: "rs = r # rest" by (cases rs) auto
  have d: "draw_negative tm u rs = Some (r, rest)" using Cons.prems(2) by (simp add: rs f)
  have "\<exists>ns. sample_pass tm fs rest = Some (ns, drop (length fs) rest)"
    by (rule Cons.IH) (use Cons.prems rs in auto)
  with d show ?case by (auto simp: f rs)
qed

lemma sample_passes_fresh:
  assumes "k * length fs \<le> length rs" "\<forall>r\<in>set rs. \<forall>p\<in>set fs. (fst p, r) \<notin> set tm"
  shows "\<exists>ns. sample_passes tm fs k rs = Some (ns, drop (k * length fs) rs)"
  using assms
proof (induction k arbitrary: rs)
  case 0
  then show ?case by simp
next
  case (Suc k)
  have len: "length fs \<le> length rs" using Suc.prems(1) by simp
  from sample_pass_fresh [OF len Suc.prems(2)]
  obtain as where p: "sample_pass tm fs rs = Some (as, drop (length fs) rs)" by blast
  have "\<exists>ns. sample_passes tm fs k (drop (length fs) rs)
          = Some (ns, drop (k * length fs) (drop (length fs) rs))"
    by (rule Suc.IH) (use Suc.prems in \<open>auto dest: in_set_dropD\<close>)
  with p show ?case by (auto simp: add.commute)
qed

lemma ng_sample_returns:
  assumes "is_training d \<noteq> 2" "aligned d" "features d \<noteq> []" "item_num d \<noteq> 0"
    and "num_ng d * length (features d) \<le> length rs"
    and "\<forall>r\<in>set rs. \<forall>p\<in>set (features d). (fst p, r) \<notin> set (train_mat d)"
  shows "\<exists>d'. ng_sample rs d = Some (Inr d')"
proof (cases "num_ng d = 0")
  case True
  with assms(1) show ?thesis by (simp add: ng_sample_def)
next
  case False
  from sample_passes_fresh [OF assms(5,6)] obtain ns where
    "sample_passes (train_mat d) (features d) (num_ng d) rs
       = Some (ns, drop (num_ng d * length (features d)) rs)" by blast
  with False assms(1-4) show ?thesis by (simp add: ng_sample_def aligned_def Let_def)
qed

lemma ng_sample_zero:
  assumes "num_ng d = 0" "is_training d \<noteq> 2"
  shows "ng_sample rs d =
           Some (Inr (d\<lparr> features_fill := Some (features d),
                         labels_fill := Some (labels d),
                         true_labels_fill := Some (true_labels d),
                         train_labels_fill := Shared \<rparr>))"
  using assms by (simp add: ng_sample_def)

lemma ng_sample_Inr:
  assumes "ng_sample rs d = Some (Inr d')"
  shows "is_training d \<noteq> 2"
    and "num_ng d = 0 \<Longrightarrow>
           d' = d\<lparr> features_fill := Some (features d), labels_fill := Some (labels d),
                   true_labels_fill := Some (true_labels d), train_labels_fill := Shared \<rparr>"
    and "0 < num_ng d \<Longrightarrow>
           \<exists>negs rest. sample_passes (train_mat d) (features d) (num_ng d) rs = Some (negs, rest) \<and>
             length (labels d) = length (features d) \<and>
             length (true_labels d) = length (features d) \<and>
             length (train_labels d) = length (features d) \<and>
             features d \<noteq> [] \<and> item_num d \<noteq> 0 \<and>
             d' = d\<lparr> negative_samples := negs,
                     features_fill := Some (features d @ negs),
                     labels_fill := Some (labels d @ replicate (length negs) 0),
                     true_labels_fill := Some (true_labels d @ replicate (length negs) 0),
                     train_labels_fill := Copied (train_labels d @ replicate (length negs) 0) \<rparr>"
proof -
  show "is_training d \<noteq> 2" using assms by (auto simp: ng_sample_def)
  show "d' = d\<lparr> features_fill := Some (features d), labels_fill := Some (labels d),
                   true_labels_fill := Some (true_labels d), train_labels_fill := Shared \<rparr>"
    if "num_ng d = 0"
    using assms that by (auto simp: ng_sample_def split: if_splits)
  show "\<exists>negs rest. sample_passes (train_mat d) (features d) (num_ng d) rs = Some (negs, rest) \<and>
             length (labels d) = length (features d) \<and>
             length (true_labels d) = length (features d) \<and>
             length (train_labels d) = length (features d) \<and>
             features d \<noteq> [] \<and> item_num d \<noteq> 0 \<and>
             d' = d\<lparr> negative_samples := negs,
                     features_fill := Some (features d @ negs),
                     labels_fill := Some (labels d @ replicate (length negs) 0),
                     true_labels_fill := Some (true_labels d @ replicate (length negs) 0),
                     train_labels_fill := Copied (train_labels d @ replicate (length negs) 0) \<rparr>"
    if "0 < num_ng d"
    using assms that
    by (auto simp: ng_sample_def Let_def split: if_splits option.splits prod.splits)
qed

lemma ng_sample_unchanged:
  assumes "ng_sample rs d = Some (Inr d')"
  shows "features d' = features d" "labels d' = labels d" "true_labels d' = true_labels d"
    "train_labels d' = train_labels d" "train_mat d' = train_mat d" "num_ng d' = num_ng d"
    "user_num d' = user_num d" "item_num d' = item_num d" "is_training d' = is_training d"
    "ncf_dataset.more d' = ncf_dataset.more d"
proof -
  consider "num_ng d = 0" | "0 < num_ng d" by auto
  then have "features d' = features d \<and> labels d' = labels d \<and> true_labels d' = true_labels d \<and>
    train_labels d' = train_labels d \<and> train_mat d' = train_mat d \<and> num_ng d' = num_ng d \<and>
    user_num d' = user_num d \<and> item_num d' = item_num d \<and> is_training d' = is_training d \<and>
    ncf_dataset.more d' = ncf_dataset.more d"
  proof cases
    case 1
    from ng_sample_Inr(2) [OF assms 1] show ?thesis by simp
  next
    case 2
    from ng_sample_Inr(3) [OF assms 2] show ?thesis by auto
  qed
  then show "features d' = features d" "labels d' = labels d" "true_labels d' = true_labels d"
    "train_labels d' = train_labels d" "train_mat d' = train_mat d" "num_ng d' = num_ng d"
    "user_num d' = user_num d" "item_num d' = item_num d" "is_training d' = is_training d"
    "ncf_dataset.more d' = ncf_dataset.more d"
    by simp_all
qed

text \<open>What the four filled arrays are after a sampling call that returned.\<close>

lemma ng_sample_filled:
  assumes "ng_sample rs d = Some (Inr d')"
  obtains negs where
    "features_fill d' = Some (features d @ negs)"
    "labels_fill d' = Some (labels d @ replicate (length negs) 0)"
    "true_labels_fill d' = Some (true_labels d @ replicate (length negs) 0)"
    "read_train_labels_fill d' = Some (train_labels d @ replicate (length negs) 0)"
    "length negs = num_ng d * length (features d)"
    "map fst negs = concat (replicate (num_ng d) (map fst (features d)))"
    "\<forall>p\<in>set negs. p \<notin> set (train_mat d) \<and> snd p \<in> set rs"
    "0 < num_ng d \<Longrightarrow> negative_samples d' = negs \<and> train_labels_fill d' =
        Copied (train_labels d @ replicate (length negs) 0) \<and>
        length (labels d) = length (features d) \<and>
        length (true_labels d) = length (features d) \<and>
        length (train_labels d) = length (features d)"
proof (cases "num_ng d = 0")
  case True
  from ng_sample_Inr(2) [OF assms True] True
  show ?thesis by (intro that [of "[]"]) (simp_all add: read_train_labels_fill_def)
next
  case False
  then have pos: "0 < num_ng d" by simp
  from ng_sample_Inr(3) [OF assms pos] obtain negs rest where
    sp: "sample_passes (train_mat d) (features d) (num_ng d) rs = Some (negs, rest)" and
    len: "length (labels d) = length (features d)" "length (true_labels d) = length (features d)"
      "length (train_labels d) = length (features d)" and
    d': "d' = d\<lparr> negative_samples := negs,
                     features_fill := Some (features d @ negs),
                     labels_fill := Some (labels d @ replicate (length negs) 0),
                     true_labels_fill := Some (true_labels d @ replicate (length negs) 0),
                     train_labels_fill := Copied (train_labels d @ replicate (length negs) 0) \<rparr>"
    by blast
  show ?thesis
    by (rule that [of negs])
       (use d' len sample_passes_Some [OF sp] sample_passes_length [OF sp]
         in \<open>simp_all add: read_train_labels_fill_def\<close>)
qed

text \<open>
  Claim C5. Let \<^verbatim>\<open>num_ng\<close> be at least one and let \<^verbatim>\<open>ng_sample\<close> return. Then the
  filled feature array is the positive pairs followed by the negative pairs, there are
  \<^verbatim>\<open>num_ng\<close> negatives per positive pair, pass after pass with the users of the positive
  pairs in their order, no negative pair is a key of the interaction matrix, and the
  filled training labels and true labels are the labels of the positive pairs, one per
  pair, followed by one \<open>0\<close> per negative pair.
\<close>

theorem negatives_not_interacted:
  assumes "1 \<le> num_ng d" "ng_sample rs d = Some (Inr d')"
  shows "features_fill d' = Some (features d @ negative_samples d') \<and>
         length (negative_samples d') = num_ng d * length (features d) \<and>
         map fst (negative_samples d') = concat (replicate (num_ng d) (map fst (features d))) \<and>
         (\<forall>p\<in>set (negative_samples d'). p \<notin> set (train_mat d)) \<and>
         read_train_labels_fill d' =
           Some (train_labels d @ replicate (length (negative_samples d')) 0) \<and>
         true_labels_fill d' =
           Some (true_labels d @ replicate (length (negative_samples d')) 0) \<and>
         length (train_labels d) = length (features d) \<and>
         length (true_labels d) = length (features d)"
proof -
  from ng_sample_filled [OF assms(2)] obtain negs where n:
    "features_fill d' = Some (features d @ negs)"
    "true_labels_fill d' = Some (true_labels d @ replicate (length negs) 0)"
    "read_train_labels_fill d' = Some (train_labels d @ replicate (length negs) 0)"
    "length negs = num_ng d * length (features d)"
    "map fst negs = concat (replicate (num_ng d) (map fst (features d)))"
    "\<forall>p\<in>set negs. p \<notin> set (train_mat d) \<and> snd p \<in> set rs"
    "0 < num_ng d \<Longrightarrow> negative_samples d' = negs \<and> train_labels_fill d' =
        Copied (train_labels d @ replicate (length negs) 0) \<and>
        length (labels d) = length (features d) \<and>
        length (true_labels d) = length (features d) \<and>
        length (train_labels d) = length (features d)"
    by metis
  from n(7) assms(1) have "negative_samples d' = negs"
    "length (true_labels d) = length (features d)" "length (train_labels d) = length (features d)"
    by simp_all
  with n(1-6) show ?thesis by simp
qed

theorem negatives_not_interacted_witness:
  "ng_sample [5, 3, 2, 2, 4] (ncf_init 2 10 [(0, 5), (1, 2)] [(0, 5), (1, 2)] [1, 1] 0 1) =
     Some (Inr ((ncf_init 2 10 [(0, 5), (1, 2)] [(0, 5), (1, 2)] [1, 1] 0 1)
       \<lparr> negative_samples := [(0, 3), (1, 4)],
         features_fill := Some [(0, 5), (1, 2), (0, 3), (1, 4)],
         labels_fill := Some [1, 1, 0, 0],
         true_labels_fill := Some [1, 1, 0, 0],
         train_labels_fill := Copied [1, 1, 0, 0] \<rparr>)) \<and>
   (0, 3) \<notin> set [(0, 5), (1, 2) :: nat \<times> nat] \<and>
   (1, 4) \<notin> set [(0, 5), (1, 2) :: nat \<times> nat]"
proof -
  let ?d = "ncf_init 2 10 [(0, 5), (1, 2)] [(0, 5), (1, 2)] [1, 1] 0 1"
  let ?d' = "?d \<lparr> negative_samples := [(0, 3), (1, 4)],
         features_fill := Some [(0, 5), (1, 2), (0, 3), (1, 4)],
         labels_fill := Some [1, 1, 0, 0],
         true_labels_fill := Some [1, 1, 0, 0],
         train_labels_fill := Copied [1, 1, 0, 0] \<rparr>"
  have ng: "1 \<le> num_ng ?d" by (simp add: ncf_init_def)
  have run: "ng_sample [5, 3, 2, 2, 4] ?d = Some (Inr ?d')" by code_simp
  have "\<forall>p\<in>set (negative_samples ?d'). p \<notin> set (train_mat ?d)"
    using negatives_not_interacted [OF ng run] by blast
  then have "(0, 3) \<notin> set [(0, 5), (1, 2) :: nat \<times> nat] \<and>
   (1, 4) \<notin> set [(0, 5), (1, 2) :: nat \<times> nat]"
    by (simp add: ncf_init_def)
  with run show ?thesis by simp
qed


lemma aligned_ng_sample:
  assumes "ng_sample rs d = Some (Inr d')"
  shows "aligned d' \<longleftrightarrow> aligned d"
  using ng_sample_unchanged [OF assms] by (simp add: aligned_def)



section \<open>Properties of the label state\<close>

subsection \<open>Flipping\<close>

lemma fold_update_length [simp]: "length (fold (\<lambda>p a. a[p := f p]) ps a) = length a"
  by (induction ps arbitrary: a) simp_all

lemma fold_update_nth:
  "i < length a \<Longrightarrow>
     fold (\<lambda>p a. a[p := f p]) ps a ! i = (if i \<in> set ps then f i else a ! i)"
proof (induction ps arbitrary: a)
  case Nil
  then show ?case by simp
next
  case (Cons p ps)
  then have "i < length (a[p := f p])" by simp
  from Cons.IH [OF this] Cons.prems show ?case
    by (cases "i = p") (simp_all add: nth_list_update)
qed

lemma toggle_at_length [simp]: "length (toggle_at pos old) = length old"
  by (simp add: toggle_at_def)

lemma toggle_at_nth:
  "i < length old \<Longrightarrow> toggle_at pos old ! i = (if i \<in> set pos then 1 - old ! i else old ! i)"
  by (simp add: toggle_at_def fold_update_nth)

lemma toggle_at_twice: "toggle_at pos (toggle_at pos old) = old"
  by (rule nth_equalityI) (simp_all add: toggle_at_nth)

lemma flip_labels_fst:
  "fst (flip_labels indices d) =
     (if flip_raises d indices then d
      else d\<lparr> train_labels :=
                toggle_at (flip_positions (length (train_labels d)) indices) (train_labels d) \<rparr>)"
  by (simp add: flip_labels_def flip_raises_def flip_positions_def Let_def)

lemma flip_raises_after:
  "flip_raises (d\<lparr> train_labels := toggle_at pos (train_labels d) \<rparr>) indices = flip_raises d indices"
  by (simp add: flip_raises_def)

lemma aligned_flip_labels: "aligned (fst (flip_labels indices d)) \<longleftrightarrow> aligned d"
  by (simp add: flip_labels_fst aligned_def)

text \<open>
  Claim C9. For every index list and every store, two calls of \<^verbatim>\<open>flip_labels\<close> with
  the same indices leave the store, and so every training label, as it was before the
  first call.
\<close>

theorem flip_twice_restores:
  "fst (flip_labels indices (fst (flip_labels indices d))) = d"
proof (cases "flip_raises d indices")
  case True
  then show ?thesis by (simp add: flip_labels_fst)
next
  case False
  let ?pos = "flip_positions (length (train_labels d)) indices"
  let ?d1 = "d\<lparr> train_labels := toggle_at ?pos (train_labels d) \<rparr>"
  have one: "fst (flip_labels indices d) = ?d1" using False by (simp add: flip_labels_fst)
  have "\<not> flip_raises ?d1 indices" using False by (simp add: flip_raises_after)
  then have "fst (flip_labels indices ?d1) =
      ?d1\<lparr> train_labels := toggle_at ?pos (train_labels ?d1) \<rparr>"
    by (simp add: flip_labels_fst)
  also have "\<dots> = d" by (simp add: toggle_at_twice)
  finally show ?thesis by (simp add: one)
qed

theorem flip_twice_restores_witness:
  "fst (flip_labels [0, 0, 5, - 1]
     (fst (flip_labels [0, 0, 5, - 1]
        (ncf_init 2 10 [(0, 5), (1, 2)] [(0, 5), (1, 2)] [1, 1] 0 1))))
   = ncf_init 2 10 [(0, 5), (1, 2)] [(0, 5), (1, 2)] [1, 1] 0 1 \<and>
   train_labels (fst (flip_labels [0, 0, 5, - 1]
        (ncf_init 2 10 [(0, 5), (1, 2)] [(0, 5), (1, 2)] [1, 1] 0 1))) = [0, 0]"
proof -
  have "train_labels (fst (flip_labels [0, 0, 5, - 1]
        (ncf_init 2 10 [(0, 5), (1, 2)] [(0, 5), (1, 2)] [1, 1] 0 1))) = [0, 0]"
    by code_simp
  with flip_twice_restores [of "[0, 0, 5, - 1]"
      "ncf_init 2 10 [(0, 5), (1, 2)] [(0, 5), (1, 2)] [1, 1] 0 1"]
  show ?thesis by (rule conjI)
qed



lemma get_state_Inr:
  assumes "length (train_labels d) = length (true_labels d)"
  shows "\<exists>c. get_state d = Inr c"
  using assms by (simp add: get_state_def Let_def)

lemma get_state_mode: "get_state (d\<lparr> is_training := m \<rparr>) = get_state d"
  by (simp add: get_state_def)




subsection \<open>Evaluation mode\<close>

text \<open>
  Claim C8, as amended. In evaluation mode \<^verbatim>\<open>flip_labels\<close> raises an
  \<^verbatim>\<open>AssertionError\<close> and changes nothing. \<^verbatim>\<open>get_state\<close> has no check of the mode:
  it gives what it gives in training mode, which are the counts whenever the training
  labels and the true labels have the same length.
\<close>

theorem flip_refused_in_evaluation_mode:
  assumes "is_training d = 2"
  shows "flip_labels indices d = (d, Inl AssertionError) \<and>
         get_state d = get_state (d\<lparr> is_training := 0 \<rparr>) \<and>
         (length (train_labels d) = length (true_labels d) \<longrightarrow> (\<exists>c. get_state d = Inr c))"
  using assms get_state_Inr [of d] by (simp add: flip_labels_def get_state_mode)

theorem flip_refused_in_evaluation_mode_witness:
  "flip_labels [0] (ncf_init 1 1 [(0, 0)] [(0, 0)] [0] 2 1)
     = (ncf_init 1 1 [(0, 0)] [(0, 0)] [0] 2 1, Inl AssertionError)"
proof -
  have "is_training (ncf_init 1 1 [(0, 0)] [(0, 0)] [0] 2 1) = 2" by (simp add: ncf_init_def)
  from flip_refused_in_evaluation_mode [OF this] show ?thesis by blast
qed

text \<open>
  Claim C8 as stated fails for \<^verbatim>\<open>get_state\<close>: on a store in evaluation mode it
  returns the counts.
\<close>

theorem summarize_in_evaluation_mode_counterexample:
  "is_training (ncf_init 1 1 [(0, 0)] [(0, 0)] [0] 2 1) = 2 \<and>
   get_state (ncf_init 1 1 [(0, 0)] [(0, 0)] [0] 2 1) =
     Inr \<lparr> pos_train = 1, neg_train = 0, true_pos = 0, true_neg = 0,
           false_pos = 1, false_neg = 0 \<rparr>"
  by code_simp

subsection \<open>Construction\<close>

lemma np_sum_map: "np_sum (map P xs) = length (filter P xs)"
  by (simp add: np_sum_def filter_map comp_def)

lemma np_and_all_true:
  assumes "length a = length b" "\<forall>x\<in>set a. x"
  shows "np_and a b = b"
  using assms
  by (auto simp: np_and_def intro!: nth_equalityI)

lemma np_and_all_false:
  assumes "length a = length b" "\<forall>x\<in>set a. \<not> x"
  shows "np_sum (np_and a b) = 0"
proof -
  have "np_and a b = map (\<lambda>(x, y). x \<and> y) (zip a b)" using assms(1) by (simp add: np_and_def)
  moreover have "\<forall>p\<in>set (zip a b). \<not> (case p of (x, y) \<Rightarrow> x \<and> y)"
    using assms(2) by (auto dest: set_zip_leftD)
  ultimately show ?thesis by (simp add: np_sum_def filter_map comp_def)
qed

text \<open>
  Claim C10. The constructor sets \<^verbatim>\<open>labels\<close> and \<^verbatim>\<open>train_labels\<close> to ones, one per
  pair, whatever the true labels are. With one true label per pair, \<^verbatim>\<open>get_state\<close>
  on the new store counts every pair as a training positive, the pairs of true label 1
  as true positives and the pairs of true label 0 as false positives.
\<close>

theorem initial_labels_all_ones:
  "labels (ncf_init un itn fs tm tls mode ng) = replicate (length fs) 1 \<and>
   train_labels (ncf_init un itn fs tm tls mode ng) = replicate (length fs) 1 \<and>
   (length tls = length fs \<longrightarrow>
      get_state (ncf_init un itn fs tm tls mode ng) =
        Inr \<lparr> pos_train = length fs, neg_train = 0,
              true_pos = length (filter (\<lambda>x. x = 1) tls), true_neg = 0,
              false_pos = length (filter (\<lambda>x. x = 0) tls), false_neg = 0 \<rparr>)"
proof -
  let ?ones = "replicate (length fs) (1 :: int)"
  have t: "\<forall>x\<in>set (map (\<lambda>x. x = 1) ?ones). x" by simp
  have f: "\<forall>x\<in>set (map (\<lambda>x. x = 0) ?ones). \<not> x" by simp
  have p: "np_sum (map (\<lambda>x. x = 1) ?ones) = length fs" by (simp add: np_sum_def)
  have n: "np_sum (map (\<lambda>x. x = 0) ?ones) = 0" by (simp add: np_sum_def)
  have "get_state (ncf_init un itn fs tm tls mode ng) =
        Inr \<lparr> pos_train = length fs, neg_train = 0,
              true_pos = length (filter (\<lambda>x. x = 1) tls), true_neg = 0,
              false_pos = length (filter (\<lambda>x. x = 0) tls), false_neg = 0 \<rparr>"
    if len: "length tls = length fs"
  proof -
    have l: "length (map (\<lambda>x. x = 1) ?ones) = length (map Q tls)"
      "length (map (\<lambda>x. x = 0) ?ones) = length (map Q tls)" for Q :: "int \<Rightarrow> bool"
      using len by simp_all
    show ?thesis
      unfolding get_state_def Let_def
      using len p n np_and_all_true [OF l(1) t] np_and_all_false [OF l(2) f]
      by (simp add: ncf_init_def np_sum_map)
  qed
  then show ?thesis by (simp add: ncf_init_def)
qed

theorem initial_labels_all_ones_witness:
  "get_state (ncf_init 2 10 [(0, 5), (1, 2)] [(0, 5), (1, 2)] [1, 0] 0 1) =
     Inr \<lparr> pos_train = 2, neg_train = 0, true_pos = 1, true_neg = 0,
           false_pos = 1, false_neg = 0 \<rparr>"
proof -
  have len: "length [1, 0 :: int] = length [(0, 5), (1, 2) :: nat \<times> nat]" by simp
  from initial_labels_all_ones [of 2 10 "[(0, 5), (1, 2)]" "[(0, 5), (1, 2)]" "[1, 0]" 0 1] len
  have "get_state (ncf_init 2 10 [(0, 5), (1, 2)] [(0, 5), (1, 2)] [1, 0] 0 1) =
        Inr \<lparr> pos_train = length [(0, 5), (1, 2) :: nat \<times> nat], neg_train = 0,
              true_pos = length (filter (\<lambda>x. x = 1) [1, 0 :: int]), true_neg = 0,
              false_pos = length (filter (\<lambda>x. x = 0) [1, 0 :: int]), false_neg = 0 \<rparr>"
    by blast
  then show ?thesis by simp
qed

section \<open>Properties of the sample views\<close>

subsection \<open>Values of an assignment, for any similarity matrix\<close>





subsection \<open>Masks and partitions\<close>






subsection \<open>The arrays read by the views\<close>










lemma read_train_labels_fill_cluster_ids [simp]:
  "read_train_labels_fill (d\<lparr> cluster_ids_fill := x \<rparr>) = read_train_labels_fill d"
  by (cases "train_labels_fill d") (simp_all add: read_train_labels_fill_def)

lemma fill_arrays_cluster_ids [simp]:
  "fill_arrays (d\<lparr> cluster_ids_fill := x \<rparr>) = fill_arrays d"
  by (simp add: fill_arrays_def)





end
